theory Spec2Isabelle
  imports Complex_Main "HOL-Library.Stream" "HOL-Library.Word"
begin

section \<open>Python values and arithmetic\<close>

text \<open>
  The script \<^verbatim>\<open>minhash/universalhash.py\<close> is dynamically typed: \<^verbatim>\<open>create_hashing\<close>
  works on whatever numbers it is given.  Two kinds of numbers occur.  The contract of the
  hash function speaks of integers (Python's unbounded \<^verbatim>\<open>int\<close>/\<^verbatim>\<open>long\<close>), and the driver
  feeds it the results of \<^verbatim>\<open>random.random()*((1<<32)-1)\<close>, which are floats (IEEE binary64).
  Both are modelled, together with the coercion of an integer operand to a float.
\<close>

datatype error = ZeroDivisionError | OverflowError | ValueError

text \<open>
  A binary64 number is \<open>Finite m e\<close>, standing for \<open>m * 2^e\<close>, an infinity or a NaN.
  The only thing left out is the sign of zero, which none of \<^verbatim>\<open>*\<close>, \<^verbatim>\<open>+\<close>, \<^verbatim>\<open>%\<close> and
  the comparisons can observe in the value they return.
\<close>

datatype float64 = Finite int int | PosInf | NegInf | NaN

datatype pyval = PyInt int | PyFloat float64

function bit_length :: "int \<Rightarrow> nat" where
  \<comment> \<open>the number of bits of a positive integer, as Python's \<^verbatim>\<open>int.bit_length\<close>\<close>
  "bit_length n = (if n \<le> 0 then 0 else Suc (bit_length (n div 2)))"
  by pat_completeness auto
termination
  by (relation "measure nat") auto

declare bit_length.simps [simp del]

definition round_half_even :: "int \<Rightarrow> nat \<Rightarrow> int" where
  \<comment> \<open>\<open>m / 2^s\<close> rounded to the nearest integer, ties to the even one\<close>
  "round_half_even m s =
     (let q = m div 2 ^ s; r = m mod 2 ^ s
      in if 2 * r < 2 ^ s then q
         else if 2 ^ s < 2 * r then q + 1
         else if even q then q else q + 1)"

definition round_to_double :: "int \<Rightarrow> int \<Rightarrow> float64" where
  \<comment> \<open>the binary64 number nearest to \<open>m * 2^e\<close> (round to nearest, ties to even): 53 bits
      of significand, least exponent \<open>-1074\<close> (subnormals), overflow to an infinity from
      \<open>2^1024\<close> on.  The result is in canonical form: a significand of exactly 53 bits, or
      fewer at exponent \<open>-1074\<close>, and zero is \<open>Finite 0 0\<close>.\<close>
  "round_to_double m e =
     (let q = max (int (bit_length \<bar>m\<bar>) + e - 53) (- 1074);
          n = (if q \<le> e then m * 2 ^ nat (e - q) else round_half_even m (nat (q - e)));
          n' = (if \<bar>n\<bar> = 2 ^ 53 then n div 2 else n);
          q' = (if \<bar>n\<bar> = 2 ^ 53 then q + 1 else q)
      in if n = 0 then Finite 0 0
         else if 971 < q' then (if 0 < m then PosInf else NegInf)
         else Finite n' q')"

fun float_mul :: "float64 \<Rightarrow> float64 \<Rightarrow> float64" where
  "float_mul (Finite m1 e1) (Finite m2 e2) = round_to_double (m1 * m2) (e1 + e2)"
| "float_mul NaN y = NaN"
| "float_mul x NaN = NaN"
| "float_mul (Finite m e) PosInf = (if m = 0 then NaN else if 0 < m then PosInf else NegInf)"
| "float_mul (Finite m e) NegInf = (if m = 0 then NaN else if 0 < m then NegInf else PosInf)"
| "float_mul PosInf (Finite m e) = (if m = 0 then NaN else if 0 < m then PosInf else NegInf)"
| "float_mul NegInf (Finite m e) = (if m = 0 then NaN else if 0 < m then NegInf else PosInf)"
| "float_mul PosInf PosInf = PosInf"
| "float_mul PosInf NegInf = NegInf"
| "float_mul NegInf PosInf = NegInf"
| "float_mul NegInf NegInf = PosInf"

fun float_add :: "float64 \<Rightarrow> float64 \<Rightarrow> float64" where
  "float_add (Finite m1 e1) (Finite m2 e2) =
     (let e = min e1 e2
      in round_to_double (m1 * 2 ^ nat (e1 - e) + m2 * 2 ^ nat (e2 - e)) e)"
| "float_add NaN y = NaN"
| "float_add x NaN = NaN"
| "float_add PosInf NegInf = NaN"
| "float_add NegInf PosInf = NaN"
| "float_add PosInf y = PosInf"
| "float_add NegInf y = NegInf"
| "float_add x PosInf = PosInf"
| "float_add x NegInf = NegInf"

fun fmod :: "float64 \<Rightarrow> float64 \<Rightarrow> float64" where
  \<comment> \<open>C's \<^verbatim>\<open>fmod\<close>: the exact remainder of the division truncated towards zero, with the
      sign of the dividend\<close>
  "fmod (Finite m1 e1) (Finite m2 e2) =
     (if m2 = 0 then NaN
      else let e = min e1 e2;
               x = m1 * 2 ^ nat (e1 - e);
               y = m2 * 2 ^ nat (e2 - e)
           in round_to_double (sgn x * (\<bar>x\<bar> mod \<bar>y\<bar>)) e)"
| "fmod NaN y = NaN"
| "fmod x NaN = NaN"
| "fmod PosInf y = NaN"
| "fmod NegInf y = NaN"
| "fmod (Finite m e) PosInf = Finite m e"
| "fmod (Finite m e) NegInf = Finite m e"

fun float_lt :: "float64 \<Rightarrow> float64 \<Rightarrow> bool" where
  "float_lt (Finite m1 e1) (Finite m2 e2) =
     (let e = min e1 e2 in m1 * 2 ^ nat (e1 - e) < m2 * 2 ^ nat (e2 - e))"
| "float_lt NaN y = False"
| "float_lt x NaN = False"
| "float_lt PosInf y = False"
| "float_lt x NegInf = False"
| "float_lt x PosInf = True"
| "float_lt NegInf y = True"

fun float_is_zero :: "float64 \<Rightarrow> bool" where
  "float_is_zero (Finite m e) = (m = 0)"
| "float_is_zero x = False"

definition float_rem :: "float64 \<Rightarrow> float64 \<Rightarrow> error + float64" where
  \<comment> \<open>\<^verbatim>\<open>%\<close> on two floats: a zero divisor raises; otherwise \<^verbatim>\<open>fmod\<close>, and a remainder
      other than zero whose sign differs from the divisor's is moved by the divisor\<close>
  "float_rem vx wx =
     (if float_is_zero wx then Inl ZeroDivisionError
      else let md = fmod vx wx
           in if \<not> float_is_zero md
              then (if float_lt wx (Finite 0 0) \<noteq> float_lt md (Finite 0 0)
                    then Inr (float_add md wx) else Inr md)
              else Inr (Finite 0 0))"

definition as_double :: "pyval \<Rightarrow> error + float64" where
  \<comment> \<open>the coercion of an operand of a float operation; an integer too large for a
      binary64 raises\<close>
  "as_double v =
     (case v of
        PyFloat x \<Rightarrow> Inr x
      | PyInt i \<Rightarrow>
          (case round_to_double i 0 of
             PosInf \<Rightarrow> Inl OverflowError
           | NegInf \<Rightarrow> Inl OverflowError
           | x \<Rightarrow> Inr x))"

definition and_then :: "error + 'a \<Rightarrow> ('a \<Rightarrow> error + 'b) \<Rightarrow> error + 'b" where
  "and_then r f = (case r of Inl err \<Rightarrow> Inl err | Inr v \<Rightarrow> f v)"

fun py_mul :: "pyval \<Rightarrow> pyval \<Rightarrow> error + pyval" where
  "py_mul (PyInt i) (PyInt j) = Inr (PyInt (i * j))"
| "py_mul v w =
     and_then (as_double v) (\<lambda>x. and_then (as_double w) (\<lambda>y. Inr (PyFloat (float_mul x y))))"

fun py_add :: "pyval \<Rightarrow> pyval \<Rightarrow> error + pyval" where
  "py_add (PyInt i) (PyInt j) = Inr (PyInt (i + j))"
| "py_add v w =
     and_then (as_double v) (\<lambda>x. and_then (as_double w) (\<lambda>y. Inr (PyFloat (float_add x y))))"

fun py_mod :: "pyval \<Rightarrow> pyval \<Rightarrow> error + pyval" where
  "py_mod (PyInt i) (PyInt j) = (if j = 0 then Inl ZeroDivisionError else Inr (PyInt (i mod j)))"
| "py_mod v w =
     and_then (as_double v) (\<lambda>x. and_then (as_double w) (\<lambda>y.
       and_then (float_rem x y) (\<lambda>r. Inr (PyFloat r))))"

section \<open>The universal hash function\<close>

text \<open>\<^verbatim>\<open>def create_hashing(a, b, p, m): return lambda x : ((a*x+b) % p) % m\<close>\<close>

definition create_hashing :: "pyval \<Rightarrow> pyval \<Rightarrow> pyval \<Rightarrow> pyval \<Rightarrow> pyval \<Rightarrow> error + pyval" where
  "create_hashing a b p m =
     (\<lambda>x. and_then (py_mul a x) (\<lambda>ax.
           and_then (py_add ax b) (\<lambda>s.
           and_then (py_mod s p) (\<lambda>r. py_mod r m))))"

section \<open>The sampling and reporting driver\<close>

text \<open>
  \<^verbatim>\<open>random.random()\<close> belongs to Python's library, not to this repository.  Its
  documented behaviour is taken as given: every call consumes the next 53 random bits \<open>k\<close>
  of the generator and returns the float \<open>k / 2^53\<close>, a number in \<open>[0.0, 1.0)\<close>.  The
  generator is the stream of these 53-bit numbers; seeding it fixes the stream.
\<close>

type_synonym rng = "53 word stream"

definition random_random :: "rng \<Rightarrow> pyval \<times> rng" where
  "random_random g = (PyFloat (round_to_double (uint (shd g)) (- 53)), stl g)"

text \<open>\<^verbatim>\<open>random_int32 = lambda : random.random()*((1<<32)-1)\<close>\<close>

definition random_int32 :: "rng \<Rightarrow> error + pyval \<times> rng" where
  "random_int32 g =
     (case random_random g of
        (r, g') \<Rightarrow> and_then (py_mul r (PyInt (push_bit 32 1 - 1))) (\<lambda>v. Inr (v, g')))"

text \<open>\<^verbatim>\<open>[h(random_int32()) for i in xrange(n)]\<close>\<close>

fun comprehension :: "(pyval \<Rightarrow> error + pyval) \<Rightarrow> nat \<Rightarrow> rng \<Rightarrow> error + pyval list \<times> rng" where
  "comprehension h 0 g = Inr ([], g)"
| "comprehension h (Suc n) g =
     and_then (random_int32 g) (\<lambda>(v, g').
     and_then (h v) (\<lambda>y.
     and_then (comprehension h n g') (\<lambda>(ys, g''). Inr (y # ys, g''))))"

text \<open>
  The comparisons of \<^verbatim>\<open>max\<close> and \<^verbatim>\<open>min\<close>.  Python compares an integer with a float
  by their exact values.
\<close>

fun py_lt :: "pyval \<Rightarrow> pyval \<Rightarrow> bool" where
  "py_lt (PyInt i) (PyInt j) = (i < j)"
| "py_lt (PyInt i) (PyFloat y) = float_lt (Finite i 0) y"
| "py_lt (PyFloat x) (PyInt j) = float_lt x (Finite j 0)"
| "py_lt (PyFloat x) (PyFloat y) = float_lt x y"

definition py_max :: "pyval list \<Rightarrow> error + pyval" where
  \<comment> \<open>\<^verbatim>\<open>max\<close> keeps the first item and replaces it by each later item that is greater\<close>
  "py_max xs =
     (case xs of
        [] \<Rightarrow> Inl ValueError
      | v # vs \<Rightarrow> Inr (fold (\<lambda>item best. if py_lt best item then item else best) vs v))"

definition py_min :: "pyval list \<Rightarrow> error + pyval" where
  "py_min xs =
     (case xs of
        [] \<Rightarrow> Inl ValueError
      | v # vs \<Rightarrow> Inr (fold (\<lambda>item best. if py_lt item best then item else best) vs v))"

text \<open>
  What a run leaves behind: the lines written by \<^verbatim>\<open>print\<close> (each line the list of its
  items), the arguments of \<^verbatim>\<open>plt.hist\<close> and the file name given to \<^verbatim>\<open>plt.savefig\<close>.
  The script is the body of \<open>main\<close>, started on a generator.  An exception ends the
  script, and the run is then the exception alone.
\<close>

record run_output =
  printed :: "pyval list list"
  hist_x :: "pyval list"
  hist_bins :: nat
  savefig :: string

definition main :: "rng \<Rightarrow> error + run_output" where
  "main g0 =
     and_then (random_int32 g0) (\<lambda>(a, g1).
     and_then (random_int32 g1) (\<lambda>(b, g2).
     let p = PyInt (push_bit 61 1 - 1);
         m = PyInt (push_bit 32 1);
         h = create_hashing a b p m
     in and_then (comprehension h (2 ^ 18) g2) (\<lambda>(x, g3).
        and_then (py_max x) (\<lambda>mx.
        and_then (py_min x) (\<lambda>mn.
          Inr \<lparr>printed = [[PyInt (push_bit 32 1 - 1), mx, PyInt 0, mn]],
               hist_x = x, hist_bins = 100, savefig = ''universal_hash.png''\<rparr>)))))"

section \<open>The numbers that floats denote\<close>

text \<open>
  The rational number a finite binary64 stands for, and the finite binary64 numbers that
  are not negative: a significand below \<open>2^53\<close> at an exponent of at least \<open>-1074\<close>.
\<close>

fun valof :: "float64 \<Rightarrow> rat" where
  "valof (Finite m e) = of_int m * 2 powi e"
| "valof x = 0"

definition nonneg_double :: "float64 \<Rightarrow> bool" where
  "nonneg_double y =
     (case y of Finite n q \<Rightarrow> 0 \<le> n \<and> n < 2 ^ 53 \<and> - 1074 \<le> q | _ \<Rightarrow> False)"

text \<open>The values the driver collects: floats that are not negative and lie below \<open>2^32\<close>.\<close>

definition float_sample :: "pyval \<Rightarrow> bool" where
  "float_sample v =
     (case v of PyFloat f \<Rightarrow> nonneg_double f \<and> valof f < 2 ^ 32 | PyInt i \<Rightarrow> False)"

section \<open>Rounding to binary64\<close>



lemma bit_length_bounds: "0 < n \<Longrightarrow> 2 ^ (bit_length n - 1) \<le> n \<and> n < 2 ^ bit_length n"
proof (induction n rule: bit_length.induct)
  case (1 n)
  show ?case
  proof (cases "n = 1")
    case True
    then show ?thesis by (simp add: bit_length.simps)
  next
    case False
    with 1 have h: "0 < n div 2" by simp
    from 1 h have IH: "2 ^ (bit_length (n div 2) - 1) \<le> n div 2 \<and> n div 2 < 2 ^ bit_length (n div 2)"
      by simp
    have pos: "0 < bit_length (n div 2)" using h by (simp add: bit_length.simps[of "n div 2"])
    have bl: "bit_length n = Suc (bit_length (n div 2))" using 1(2) by (simp add: bit_length.simps[of n])
    have "2 * 2 ^ (bit_length (n div 2) - 1) = (2::int) ^ bit_length (n div 2)"
      using pos by (cases "bit_length (n div 2)") simp_all
    with IH show ?thesis unfolding bl by (simp, linarith)
  qed
qed

lemma round_half_even_error: "\<bar>2 * (round_half_even m s * 2 ^ s - m)\<bar> \<le> 2 ^ s"
proof -
  define q r where "q = m div 2 ^ s" and "r = m mod 2 ^ s"
  have m: "m = q * 2 ^ s + r" unfolding q_def r_def by (rule div_mult_mod_eq[symmetric])
  have r: "0 \<le> r" "r < 2 ^ s" by (simp_all add: r_def)
  show ?thesis
    unfolding round_half_even_def Let_def q_def[symmetric] r_def[symmetric]
    using r by (auto simp: m algebra_simps)
qed

lemma round_half_even_nonneg: "0 \<le> m \<Longrightarrow> 0 \<le> round_half_even m s"
  by (auto simp: round_half_even_def Let_def pos_imp_zdiv_nonneg_iff)


lemma two_powi_add: "(2::rat) powi (a + b) = 2 powi a * 2 powi b"
  by (simp add: power_int_add)

lemma two_powi_nat: "0 \<le> a \<Longrightarrow> (2::rat) powi a = 2 ^ nat a"
  by (simp add: power_int_nonneg_exp)

lemma two_powi_mono: "a \<le> b \<Longrightarrow> (2::rat) powi a \<le> 2 powi b"
  by (rule power_int_increasing) simp_all

lemma two_powi_less_cancel: "(2::rat) powi a < 2 powi b \<Longrightarrow> a < b"
  using two_powi_mono[of b a] by (cases "a < b") auto

lemma abs_two: "\<bar>2 * (x::rat)\<bar> = 2 * \<bar>x\<bar>"
  by (simp add: abs_mult)

lemma half_bound: "2 * (a::rat) \<le> b \<Longrightarrow> a \<le> b / 2"
  by simp

lemma round_core:
  fixes m e :: int
  assumes m0: "m \<noteq> 0"
  defines "bl \<equiv> int (bit_length \<bar>m\<bar>)"
  defines "q0 \<equiv> max (bl + e - 53) (- 1074)"
  defines "n0 \<equiv> (if q0 \<le> e then m * 2 ^ nat (e - q0) else round_half_even m (nat (q0 - e)))"
  shows "(2::rat) powi (bl - 1) \<le> \<bar>of_int m\<bar>"
    and "\<bar>of_int m :: rat\<bar> < 2 powi bl"
    and "\<bar>of_int n0 * 2 powi q0 - of_int m * 2 powi e\<bar> \<le> (2::rat) powi q0 / 2"
    and "q0 \<le> e \<Longrightarrow> of_int n0 * 2 powi q0 = of_int m * (2::rat) powi e"
    and "\<bar>n0\<bar> \<le> 2 ^ 53"
    and "0 \<le> m \<Longrightarrow> 0 \<le> n0"
proof -
  have mpos: "0 < \<bar>m\<bar>" using m0 by simp
  from bit_length_bounds[OF mpos]
  have b1: "2 ^ (bit_length \<bar>m\<bar> - 1) \<le> \<bar>m\<bar>" and b2: "\<bar>m\<bar> < 2 ^ bit_length \<bar>m\<bar>"
    by simp_all
  have blpos: "0 < bit_length \<bar>m\<bar>"
    using mpos by (simp add: bit_length.simps[of "\<bar>m\<bar>"])
  have "(2::rat) powi (bl - 1) = 2 ^ (bit_length \<bar>m\<bar> - 1)"
    using blpos by (simp add: bl_def two_powi_nat nat_diff_distrib')
  also have "\<dots> = of_int (2 ^ (bit_length \<bar>m\<bar> - 1))" by simp
  also have "\<dots> \<le> of_int \<bar>m\<bar>" using b1 by (simp only: of_int_le_iff)
  finally show r1: "(2::rat) powi (bl - 1) \<le> \<bar>of_int m\<bar>" by simp
  have "\<bar>of_int m :: rat\<bar> = of_int \<bar>m\<bar>" by simp
  also have "\<dots> < of_int (2 ^ bit_length \<bar>m\<bar>)" using b2 by (simp only: of_int_less_iff)
  also have "\<dots> = 2 powi bl" by (simp add: bl_def)
  finally show r2: "\<bar>of_int m :: rat\<bar> < 2 powi bl" .
  show exact: "of_int n0 * 2 powi q0 = of_int m * (2::rat) powi e" if "q0 \<le> e"
  proof -
    have "e = int (nat (e - q0)) + q0" using that by simp
    then have "(2::rat) powi e = 2 ^ nat (e - q0) * 2 powi q0"
      by (metis two_powi_add power_int_of_nat)
    then show ?thesis using that by (simp add: n0_def)
  qed
  show err: "\<bar>of_int n0 * 2 powi q0 - of_int m * 2 powi e\<bar> \<le> (2::rat) powi q0 / 2"
  proof (cases "q0 \<le> e")
    case True
    then show ?thesis using exact by simp
  next
    case False
    define s where "s = nat (q0 - e)"
    have n0: "n0 = round_half_even m s" using False by (simp add: n0_def s_def)
    have "of_int \<bar>2 * (n0 * 2 ^ s - m)\<bar> \<le> (of_int (2 ^ s) :: rat)"
      unfolding n0 using round_half_even_error[of m s] by (simp only: of_int_le_iff)
    then have i: "\<bar>2 * (of_int n0 * 2 ^ s - of_int m)\<bar> \<le> (2 ^ s :: rat)" by simp
    have "q0 = int s + e" using False by (simp add: s_def)
    then have p: "(2::rat) powi q0 = 2 ^ s * 2 powi e"
      by (metis two_powi_add power_int_of_nat)
    have pe: "0 < (2::rat) powi e" by simp
    have le: "\<bar>2 * (of_int n0 * 2 ^ s - of_int m)\<bar> * 2 powi e \<le> (2 ^ s :: rat) * 2 powi e"
      using i pe by (simp only: mult_le_cancel_right_pos)
    have eq: "\<bar>2 * (of_int n0 * 2 ^ s - of_int m)\<bar> * 2 powi e
        = 2 * \<bar>of_int n0 * (2 ^ s * 2 powi e) - of_int m * (2::rat) powi e\<bar>"
    proof -
      have "\<bar>2 * (of_int n0 * 2 ^ s - of_int m)\<bar> * 2 powi e
          = \<bar>(2 * (of_int n0 * 2 ^ s - of_int m)) * (2::rat) powi e\<bar>"
        by (simp add: abs_mult)
      also have "(2 * (of_int n0 * 2 ^ s - of_int m)) * (2::rat) powi e
          = 2 * (of_int n0 * (2 ^ s * 2 powi e) - of_int m * 2 powi e)"
        by (simp add: algebra_simps)
      also have "\<bar>2 * (of_int n0 * (2 ^ s * 2 powi e) - of_int m * (2::rat) powi e)\<bar>
          = 2 * \<bar>of_int n0 * (2 ^ s * 2 powi e) - of_int m * (2::rat) powi e\<bar>"
        by (rule abs_two)
      finally show ?thesis .
    qed
    from le eq have "2 * \<bar>of_int n0 * (2 ^ s * 2 powi e) - of_int m * (2::rat) powi e\<bar>
        \<le> 2 ^ s * 2 powi e" by (simp only:)
    then show ?thesis unfolding p by (rule half_bound)
  qed
  show "\<bar>n0\<bar> \<le> 2 ^ 53"
  proof -
    have "\<bar>of_int n0 :: rat\<bar> * 2 powi q0 = \<bar>of_int n0 * 2 powi q0\<bar>" by (simp add: abs_mult)
    also have "\<dots> \<le> \<bar>of_int m * 2 powi e\<bar> + 2 powi q0 / 2" using err by linarith
    also have "\<bar>of_int m * (2::rat) powi e\<bar> = \<bar>of_int m\<bar> * 2 powi e" by (simp add: abs_mult)
    also have "\<dots> < 2 powi bl * 2 powi e" using r2 by simp
    also have "\<dots> = 2 powi (bl + e)" by (simp add: two_powi_add)
    also have "\<dots> \<le> 2 powi (q0 + 53)" by (rule two_powi_mono) (simp add: q0_def)
    also have "\<dots> = 2 ^ 53 * 2 powi q0" by (simp add: two_powi_add)
    finally have "\<bar>of_int n0 :: rat\<bar> * 2 powi q0 < (2 ^ 53 + 1 / 2) * 2 powi q0"
      by (simp add: algebra_simps)
    then have "\<bar>of_int n0 :: rat\<bar> < 2 ^ 53 + 1 / 2" by simp
    then have "(of_int \<bar>n0\<bar> :: rat) < of_int (2 ^ 53 + 1)" by simp
    then have "\<bar>n0\<bar> < 2 ^ 53 + 1" by (simp only: of_int_less_iff)
    then show ?thesis by simp
  qed
  show "0 \<le> n0" if "0 \<le> m"
    using that by (simp add: n0_def round_half_even_nonneg)
qed


lemma round_half_even_zero: "round_half_even 0 s = 0"
  by (simp add: round_half_even_def)

lemma round_to_double_zero: "round_to_double 0 e = Finite 0 0"
  by (simp add: round_to_double_def Let_def round_half_even_zero)

lemma round_to_double_spec:
  fixes m e k :: int
  assumes bound: "\<bar>of_int m\<bar> * 2 powi e < (2::rat) powi k" and k: "k \<le> 1023"
  shows "\<exists>n q. round_to_double m e = Finite n q \<and> \<bar>n\<bar> < 2 ^ 53 \<and> - 1074 \<le> q \<and> q \<le> 971 \<and>
           (0 \<le> m \<longrightarrow> 0 \<le> n) \<and>
           \<bar>of_int n * 2 powi q - of_int m * 2 powi e\<bar> \<le> (2::rat) powi (max (k - 53) (- 1074)) / 2 \<and>
           (\<bar>m\<bar> < 2 ^ 53 \<and> - 1074 \<le> e \<longrightarrow> of_int n * 2 powi q = of_int m * (2::rat) powi e)"
proof (cases "m = 0")
  case True
  have "0 \<le> (2::rat) powi (max (k - 53) (- 1074)) / 2" by simp
  with True show ?thesis
    by (simp add: round_to_double_zero)
next
  case False
  define bl where "bl = int (bit_length \<bar>m\<bar>)"
  define q0 where "q0 = max (bl + e - 53) (- 1074)"
  define n0 where "n0 = (if q0 \<le> e then m * 2 ^ nat (e - q0) else round_half_even m (nat (q0 - e)))"
  note core1 = round_core(1)[OF False, folded bl_def]
  note core = round_core(3-6)[where e = e, OF False, folded bl_def, folded q0_def, folded n0_def]
  have "(2::rat) powi (bl - 1 + e) = 2 powi (bl - 1) * 2 powi e" by (rule two_powi_add)
  also have "\<dots> \<le> \<bar>of_int m\<bar> * 2 powi e" using core1 by simp
  also note bound
  finally have ble: "bl + e \<le> k" using two_powi_less_cancel[of "bl - 1 + e" k] by simp
  then have q0k: "q0 \<le> max (k - 53) (- 1074)" by (simp add: q0_def)
  with k have q0u: "q0 \<le> 970" by simp
  have q0l: "- 1074 \<le> q0" by (simp add: q0_def)
  have errk: "\<bar>of_int n0 * 2 powi q0 - of_int m * 2 powi e\<bar> \<le> (2::rat) powi (max (k - 53) (- 1074)) / 2"
  proof -
    have "(2::rat) powi q0 / 2 \<le> 2 powi (max (k - 53) (- 1074)) / 2"
      using two_powi_mono[OF q0k] by simp
    with core(1) show ?thesis by linarith
  qed
  have exact: "of_int n0 * 2 powi q0 = of_int m * (2::rat) powi e" if "\<bar>m\<bar> < 2 ^ 53" "- 1074 \<le> e"
  proof -
    have "(of_int \<bar>m\<bar> :: rat) < of_int (2 ^ 53)" using that(1) by (simp only: of_int_less_iff)
    then have "(2::rat) powi (bl - 1) < 2 powi 53" using core1 by simp
    then have "bl - 1 < 53" by (rule two_powi_less_cancel)
    then have "q0 \<le> e" using that(2) by (simp add: q0_def)
    then show ?thesis by (rule core(2))
  qed
  have unfold: "round_to_double m e =
      (if n0 = 0 then Finite 0 0
       else if 971 < (if \<bar>n0\<bar> = 2 ^ 53 then q0 + 1 else q0) then (if 0 < m then PosInf else NegInf)
       else Finite (if \<bar>n0\<bar> = 2 ^ 53 then n0 div 2 else n0) (if \<bar>n0\<bar> = 2 ^ 53 then q0 + 1 else q0))"
    unfolding round_to_double_def Let_def bl_def[symmetric] q0_def[symmetric] n0_def[symmetric] ..
  consider (zero) "n0 = 0" | (carry) "\<bar>n0\<bar> = 2 ^ 53" | (plain) "n0 \<noteq> 0" "\<bar>n0\<bar> < 2 ^ 53"
    using core(3) by fastforce
  then show ?thesis
  proof cases
    case zero
    have r: "round_to_double m e = Finite 0 0" unfolding unfold using zero by simp
    have "\<bar>of_int 0 * 2 powi 0 - of_int m * 2 powi e\<bar> \<le> (2::rat) powi (max (k - 53) (- 1074)) / 2"
      using errk zero by simp
    moreover have "\<bar>m\<bar> < 2 ^ 53 \<and> - 1074 \<le> e \<longrightarrow> of_int 0 * 2 powi 0 = of_int m * (2::rat) powi e"
      using exact zero by simp
    ultimately show ?thesis unfolding r by (intro exI[where x = 0] conjI) simp_all
  next
    case carry
    have r: "round_to_double m e = Finite (n0 div 2) (q0 + 1)" unfolding unfold using carry q0u by auto
    have nn: "n0 = 2 ^ 53 \<or> n0 = - (2 ^ 53)" using carry by linarith
    have ev: "n0 = 2 * (n0 div 2)" using nn by auto
    have "(of_int n0 :: rat) = 2 * of_int (n0 div 2)"
      by (subst ev) (simp only: of_int_mult of_int_numeral)
    then have v: "of_int (n0 div 2) * 2 powi (q0 + 1) = of_int n0 * (2::rat) powi q0"
      by (simp add: two_powi_add)
    have a: "\<bar>n0 div 2\<bar> < 2 ^ 53" using nn by auto
    have s: "0 \<le> m \<longrightarrow> 0 \<le> n0 div 2" using core(4) by auto
    show ?thesis
    proof (intro exI conjI)
      show "round_to_double m e = Finite (n0 div 2) (q0 + 1)" by (rule r)
      show "\<bar>n0 div 2\<bar> < 2 ^ 53" by (rule a)
      show "- 1074 \<le> q0 + 1" using q0l by simp
      show "q0 + 1 \<le> 971" using q0u by simp
      show "0 \<le> m \<longrightarrow> 0 \<le> n0 div 2" by (rule s)
      show "\<bar>of_int (n0 div 2) * 2 powi (q0 + 1) - of_int m * 2 powi e\<bar>
          \<le> (2::rat) powi (max (k - 53) (- 1074)) / 2"
        unfolding v by (rule errk)
      show "\<bar>m\<bar> < 2 ^ 53 \<and> - 1074 \<le> e \<longrightarrow>
          of_int (n0 div 2) * 2 powi (q0 + 1) = of_int m * (2::rat) powi e"
        unfolding v using exact by simp
    qed
  next
    case plain
    have r: "round_to_double m e = Finite n0 q0" unfolding unfold using plain q0u by auto
    have s: "0 \<le> m \<longrightarrow> 0 \<le> n0" using core(4) by auto
    show ?thesis
    proof (intro exI conjI)
      show "round_to_double m e = Finite n0 q0" by (rule r)
      show "\<bar>n0\<bar> < 2 ^ 53" by (rule plain(2))
      show "- 1074 \<le> q0" by (rule q0l)
      show "q0 \<le> 971" using q0u by simp
      show "0 \<le> m \<longrightarrow> 0 \<le> n0" by (rule s)
      show "\<bar>of_int n0 * 2 powi q0 - of_int m * 2 powi e\<bar>
          \<le> (2::rat) powi (max (k - 53) (- 1074)) / 2"
        by (rule errk)
      show "\<bar>m\<bar> < 2 ^ 53 \<and> - 1074 \<le> e \<longrightarrow>
          of_int n0 * 2 powi q0 = of_int m * (2::rat) powi e"
        using exact by simp
    qed
  qed
qed



lemma nonneg_doubleE:
  assumes "nonneg_double y"
  obtains n q where "y = Finite n q" "0 \<le> n" "n < 2 ^ 53" "- 1074 \<le> q"
  using assms by (cases y) (auto simp: nonneg_double_def)

lemma nonneg_double_valof: "nonneg_double y \<Longrightarrow> 0 \<le> valof y"
  by (erule nonneg_doubleE) simp

lemma round_nonneg:
  fixes m e k :: int
  assumes m: "0 \<le> m" and bound: "of_int m * 2 powi e < (2::rat) powi k" and k: "k \<le> 1023"
  shows "nonneg_double (round_to_double m e)"
    and "\<bar>valof (round_to_double m e) - of_int m * 2 powi e\<bar> \<le> 2 powi (max (k - 53) (- 1074)) / 2"
    and "m < 2 ^ 53 \<Longrightarrow> - 1074 \<le> e \<Longrightarrow> valof (round_to_double m e) = of_int m * 2 powi e"
proof -
  have "\<bar>of_int m\<bar> * 2 powi e < (2::rat) powi k" using m bound by simp
  from round_to_double_spec[OF this k] obtain n q where
    r: "round_to_double m e = Finite n q" and n: "\<bar>n\<bar> < 2 ^ 53" and q: "- 1074 \<le> q"
    and s: "0 \<le> m \<longrightarrow> 0 \<le> n"
    and err: "\<bar>of_int n * 2 powi q - of_int m * 2 powi e\<bar> \<le> (2::rat) powi (max (k - 53) (- 1074)) / 2"
    and ex: "\<bar>m\<bar> < 2 ^ 53 \<and> - 1074 \<le> e \<longrightarrow> of_int n * 2 powi q = of_int m * (2::rat) powi e"
    by blast
  show "nonneg_double (round_to_double m e)"
    using n q s m by (simp add: r nonneg_double_def)
  show "\<bar>valof (round_to_double m e) - of_int m * 2 powi e\<bar> \<le> 2 powi (max (k - 53) (- 1074)) / 2"
    using err by (simp add: r)
  show "valof (round_to_double m e) = of_int m * 2 powi e" if "m < 2 ^ 53" "- 1074 \<le> e"
    using ex that m by (simp add: r)
qed

lemma float_mul_nonneg:
  assumes x: "nonneg_double x" and y: "nonneg_double y"
    and bound: "valof x * valof y < 2 powi k" and k: "k \<le> 1023"
  shows "nonneg_double (float_mul x y)"
    and "\<bar>valof (float_mul x y) - valof x * valof y\<bar> \<le> 2 powi (max (k - 53) (- 1074)) / 2"
proof -
  from x obtain m1 e1 where x': "x = Finite m1 e1" "0 \<le> m1" by (rule nonneg_doubleE)
  from y obtain m2 e2 where y': "y = Finite m2 e2" "0 \<le> m2" by (rule nonneg_doubleE)
  have v: "of_int (m1 * m2) * (2::rat) powi (e1 + e2) = valof x * valof y"
    by (simp add: x' y' two_powi_add)
  have m: "0 \<le> m1 * m2" using x' y' by simp
  have b: "of_int (m1 * m2) * (2::rat) powi (e1 + e2) < 2 powi k" unfolding v by (rule bound)
  show "nonneg_double (float_mul x y)"
    using round_nonneg(1)[OF m b k] by (simp add: x' y')
  show "\<bar>valof (float_mul x y) - valof x * valof y\<bar> \<le> 2 powi (max (k - 53) (- 1074)) / 2"
    using round_nonneg(2)[OF m b k] unfolding v by (simp add: x' y')
qed

lemma align_value:
  fixes m e1 e :: int
  assumes "e \<le> e1"
  shows "of_int (m * 2 ^ nat (e1 - e)) * (2::rat) powi e = of_int m * 2 powi e1"
proof -
  have "e1 = int (nat (e1 - e)) + e" using assms by simp
  then have "(2::rat) powi e1 = 2 ^ nat (e1 - e) * 2 powi e"
    by (metis two_powi_add power_int_of_nat)
  then show ?thesis by simp
qed

lemma float_add_nonneg:
  assumes x: "nonneg_double x" and y: "nonneg_double y"
    and bound: "valof x + valof y < 2 powi k" and k: "k \<le> 1023"
  shows "nonneg_double (float_add x y)"
    and "\<bar>valof (float_add x y) - (valof x + valof y)\<bar> \<le> 2 powi (max (k - 53) (- 1074)) / 2"
proof -
  from x obtain m1 e1 where x': "x = Finite m1 e1" "0 \<le> m1" by (rule nonneg_doubleE)
  from y obtain m2 e2 where y': "y = Finite m2 e2" "0 \<le> m2" by (rule nonneg_doubleE)
  define e where "e = min e1 e2"
  define s where "s = m1 * 2 ^ nat (e1 - e) + m2 * 2 ^ nat (e2 - e)"
  have "of_int (m1 * 2 ^ nat (e1 - e)) * (2::rat) powi e = of_int m1 * 2 powi e1"
    and "of_int (m2 * 2 ^ nat (e2 - e)) * (2::rat) powi e = of_int m2 * 2 powi e2"
    by (rule align_value, simp add: e_def)+
  then have v: "of_int s * (2::rat) powi e = valof x + valof y"
    unfolding s_def of_int_add distrib_right by (simp only: x' y' valof.simps)
  have m: "0 \<le> s" using x' y' by (simp add: s_def)
  have b: "of_int s * (2::rat) powi e < 2 powi k" unfolding v by (rule bound)
  have r: "float_add x y = round_to_double s e" by (simp add: x' y' Let_def s_def e_def)
  show "nonneg_double (float_add x y)"
    unfolding r by (rule round_nonneg(1)[OF m b k])
  show "\<bar>valof (float_add x y) - (valof x + valof y)\<bar> \<le> 2 powi (max (k - 53) (- 1074)) / 2"
    unfolding r using round_nonneg(2)[OF m b k] unfolding v .
qed


lemma float_lt_valof:
  "float_lt (Finite m1 e1) (Finite m2 e2) \<longleftrightarrow> valof (Finite m1 e1) < valof (Finite m2 e2)"
proof -
  define e where "e = min e1 e2"
  have a: "of_int (m1 * 2 ^ nat (e1 - e)) * (2::rat) powi e = of_int m1 * 2 powi e1"
    and b: "of_int (m2 * 2 ^ nat (e2 - e)) * (2::rat) powi e = of_int m2 * 2 powi e2"
    by (rule align_value, simp add: e_def)+
  have "float_lt (Finite m1 e1) (Finite m2 e2) \<longleftrightarrow> m1 * 2 ^ nat (e1 - e) < m2 * 2 ^ nat (e2 - e)"
    by (simp add: Let_def e_def)
  also have "\<dots> \<longleftrightarrow> (of_int (m1 * 2 ^ nat (e1 - e)) :: rat) < of_int (m2 * 2 ^ nat (e2 - e))"
    by (simp only: of_int_less_iff)
  also have "\<dots> \<longleftrightarrow> of_int (m1 * 2 ^ nat (e1 - e)) * (2::rat) powi e < of_int (m2 * 2 ^ nat (e2 - e)) * 2 powi e"
    by (simp only: mult_less_cancel_right_pos zero_less_power_int zero_less_numeral)
  finally show ?thesis unfolding a b by simp
qed

lemma float_lt_zero: "nonneg_double x \<Longrightarrow> \<not> float_lt x (Finite 0 0)"
  by (erule nonneg_doubleE) (simp add: float_lt_valof not_less)

lemma nonneg_double_zero: "nonneg_double (Finite 0 0)"
  by (simp add: nonneg_double_def)

lemma float_rem_nonneg:
  assumes x: "nonneg_double x" and y: "nonneg_double y" and ypos: "0 < valof y"
    and yb: "valof y \<le> 2 powi k" and k: "k \<le> 1023"
  shows "\<exists>r. float_rem x y = Inr r \<and> nonneg_double r \<and> valof r < valof y"
proof -
  from x obtain m1 e1 where x': "x = Finite m1 e1" "0 \<le> m1" "m1 < 2 ^ 53" "- 1074 \<le> e1"
    by (rule nonneg_doubleE)
  from y obtain m2 e2 where y': "y = Finite m2 e2" "0 \<le> m2" "m2 < 2 ^ 53" "- 1074 \<le> e2"
    by (rule nonneg_doubleE)
  have m2: "0 < m2" using ypos y' by (simp add: zero_less_mult_iff)
  define e where "e = min e1 e2"
  define X where "X = m1 * 2 ^ nat (e1 - e)"
  define Y where "Y = m2 * 2 ^ nat (e2 - e)"
  define R where "R = X mod Y"
  have X0: "0 \<le> X" using x' by (simp add: X_def)
  have Y0: "0 < Y" using m2 by (simp add: Y_def)
  have sg: "sgn X * (\<bar>X\<bar> mod \<bar>Y\<bar>) = R"
    using X0 Y0 by (cases "X = 0") (simp_all add: R_def)
  have R0: "0 \<le> R" and RY: "R < Y" using Y0 by (simp_all add: R_def)
  have RX: "R \<le> X" unfolding R_def using X0 by (rule zmod_le_nonneg_dividend)
  have R53: "R < 2 ^ 53"
  proof (cases "e1 \<le> e2")
    case True
    then have "X = m1" by (simp add: X_def e_def)
    with RX x' show ?thesis by simp
  next
    case False
    then have "Y = m2" by (simp add: Y_def e_def)
    with RY y' show ?thesis by simp
  qed
  have el: "- 1074 \<le> e" using x' y' by (simp add: e_def)
  have Yv: "of_int Y * (2::rat) powi e = valof y"
    unfolding Y_def y' valof.simps by (rule align_value) (simp add: e_def)
  have "of_int R * (2::rat) powi e < of_int Y * 2 powi e"
    using RY by (simp only: mult_less_cancel_right_pos zero_less_power_int zero_less_numeral of_int_less_iff)
  then have Rv: "of_int R * (2::rat) powi e < valof y" unfolding Yv .
  with yb have Rk: "of_int R * (2::rat) powi e < 2 powi k" by simp
  have fm: "fmod x y = round_to_double R e"
    using m2 sg by (simp add: x' y' Let_def e_def X_def Y_def)
  have nd: "nonneg_double (fmod x y)" unfolding fm by (rule round_nonneg(1)[OF R0 Rk k])
  have vl: "valof (fmod x y) < valof y"
    unfolding fm using round_nonneg(3)[OF R0 Rk k R53 el] Rv by simp
  have ynz: "\<not> float_is_zero y" using m2 y' by simp
  have ylt: "\<not> float_lt y (Finite 0 0)" using y by (rule float_lt_zero)
  have mlt: "\<not> float_lt (fmod x y) (Finite 0 0)" using nd by (rule float_lt_zero)
  show ?thesis
  proof (cases "float_is_zero (fmod x y)")
    case True
    then have "float_rem x y = Inr (Finite 0 0)" using ynz by (simp add: float_rem_def)
    then show ?thesis using ypos nonneg_double_zero by simp
  next
    case False
    then have "float_rem x y = Inr (fmod x y)" using ynz ylt mlt by (simp add: float_rem_def Let_def)
    then show ?thesis using nd vl by simp
  qed
qed

lemma as_double_float [simp]: "as_double (PyFloat x) = Inr x"
  by (simp add: as_double_def)

lemma as_double_p: "as_double (PyInt 2305843009213693951) = Inr (Finite 4503599627370496 9)"
  by (simp add: as_double_def round_to_double_def round_half_even_def Let_def bit_length.simps)

lemma as_double_m: "as_double (PyInt 4294967296) = Inr (Finite 4503599627370496 (- 20))"
  by (simp add: as_double_def round_to_double_def round_half_even_def Let_def bit_length.simps)

lemma as_double_scale: "as_double (PyInt 4294967295) = Inr (Finite 9007199252643840 (- 21))"
  by (simp add: as_double_def round_to_double_def round_half_even_def Let_def bit_length.simps)


lemma create_hashing_float:
  assumes a: "nonneg_double a" "valof a < 2 ^ 32"
    and b: "nonneg_double b" "valof b < 2 ^ 32"
    and x: "nonneg_double x" "valof x < 2 ^ 32"
  shows "\<exists>y. create_hashing (PyFloat a) (PyFloat b) (PyInt (push_bit 61 1 - 1))
              (PyInt (push_bit 32 1)) (PyFloat x) = Inr (PyFloat y)
            \<and> nonneg_double y \<and> valof y < 2 ^ 32"
proof -
  have a0: "0 \<le> valof a" and x0: "0 \<le> valof x" and b0: "0 \<le> valof b"
    using a b x by (simp_all add: nonneg_double_valof)
  have "valof a * valof x < 2 ^ 32 * 2 ^ 32"
    using a(2) x(2) a0 x0 by (intro mult_strict_mono) simp_all
  then have ax: "valof a * valof x < 2 powi 64" by simp
  note t = float_mul_nonneg[OF a(1) x(1) ax]
  have t1: "nonneg_double (float_mul a x)" by (rule t(1)) simp
  have "\<bar>valof (float_mul a x) - valof a * valof x\<bar> \<le> 2 powi (max (64 - 53) (- 1074)) / 2"
    by (rule t(2)) simp
  then have t2: "valof (float_mul a x) < 2 ^ 64 + 2 ^ 10" using ax by simp
  have sb: "valof (float_mul a x) + valof b < 2 powi 65" using t2 b(2) by simp
  have s1: "nonneg_double (float_add (float_mul a x) b)"
    by (rule float_add_nonneg(1)[OF t1 b(1) sb]) simp
  have P: "nonneg_double (Finite 4503599627370496 9)" "0 < valof (Finite 4503599627370496 9)"
    "valof (Finite 4503599627370496 9) \<le> 2 powi 61"
    by (simp_all add: nonneg_double_def)
  have M: "nonneg_double (Finite 4503599627370496 (- 20))" "0 < valof (Finite 4503599627370496 (- 20))"
    "valof (Finite 4503599627370496 (- 20)) \<le> 2 powi 32"
    by (simp_all add: nonneg_double_def)
  from float_rem_nonneg[OF s1 P] obtain r where
    r: "float_rem (float_add (float_mul a x) b) (Finite 4503599627370496 9) = Inr r" "nonneg_double r"
    by auto
  from float_rem_nonneg[OF r(2) M] obtain y where
    y: "float_rem r (Finite 4503599627370496 (- 20)) = Inr y" "nonneg_double y"
       "valof y < valof (Finite 4503599627370496 (- 20))"
    by auto
  have "create_hashing (PyFloat a) (PyFloat b) (PyInt (push_bit 61 1 - 1))
          (PyInt (push_bit 32 1)) (PyFloat x) = Inr (PyFloat y)"
    by (simp add: create_hashing_def and_then_def as_double_p as_double_m r(1) y(1))
  moreover have "valof y < 2 ^ 32" using y(3) by simp
  ultimately show ?thesis using y(2) by blast
qed

lemma random_int32_value:
  "\<exists>y. random_int32 g = Inr (PyFloat y, stl g) \<and> nonneg_double y \<and> valof y < 2 ^ 32 - 1"
proof -
  define k where "k = uint (shd g)"
  have k0: "0 \<le> k" by (simp add: k_def)
  have "k < 2 ^ LENGTH(53)" unfolding k_def by (rule uint_lt2p)
  then have k53: "k < 2 ^ 53" by simp
  have "(of_int k :: rat) < of_int (2 ^ 53)" using k53 by (simp only: of_int_less_iff)
  then have kb: "of_int k * (2::rat) powi (- 53) < 2 powi 0" by simp
  note rr = round_nonneg[OF k0 kb]
  define r where "r = round_to_double k (- 53)"
  have r1: "nonneg_double r" unfolding r_def by (rule rr(1)) simp
  have r2: "valof r = of_int k * 2 powi (- 53)" unfolding r_def using k53 by (intro rr(3)) simp_all
  define c where "c = Finite 9007199252643840 (- 21)"
  have c1: "nonneg_double c" by (simp add: c_def nonneg_double_def)
  have c2: "valof c = 2 ^ 32 - 1" by (simp add: c_def)
  have "(of_int k :: rat) \<le> of_int (2 ^ 53 - 1)" using k53 by (simp only: of_int_le_iff)
  then have ku: "(of_int k :: rat) \<le> 2 ^ 53 - 1" by simp
  have pv: "valof r * valof c \<le> (2 ^ 53 - 1) * (2 ^ 32 - 1) / 2 ^ 53"
    unfolding r2 c2 using ku by simp
  then have pb: "valof r * valof c < 2 powi 32" by simp
  note mm = float_mul_nonneg[OF r1 c1 pb]
  have y1: "nonneg_double (float_mul r c)" by (rule mm(1)) simp
  have "\<bar>valof (float_mul r c) - valof r * valof c\<bar> \<le> 2 powi (max (32 - 53) (- 1074)) / 2"
    by (rule mm(2)) simp
  then have "valof (float_mul r c) - valof r * valof c \<le> 2 powi (max (32 - 53) (- 1074)) / 2"
    by (rule abs_le_D1)
  then have "valof (float_mul r c) \<le> valof r * valof c + 1 / 2 ^ 22" by simp
  then have y2: "valof (float_mul r c) < 2 ^ 32 - 1" using pv by simp
  have "random_int32 g = Inr (PyFloat (float_mul r c), stl g)"
    by (simp add: random_int32_def random_random_def and_then_def as_double_scale r_def c_def k_def)
  then show ?thesis using y1 y2 by blast
qed

section \<open>The run of the driver\<close>



lemma comprehension_spec:
  assumes h: "\<And>f. nonneg_double f \<Longrightarrow> valof f < 2 ^ 32 - 1 \<Longrightarrow> \<exists>y. h (PyFloat f) = Inr y \<and> Q y"
  shows "\<exists>ys. comprehension h n g = Inr (ys, sdrop n g) \<and> length ys = n \<and>
           (\<forall>i<n. \<exists>v g'. random_int32 (sdrop i g) = Inr (v, g') \<and> h v = Inr (ys ! i)) \<and>
           (\<forall>y\<in>set ys. Q y)"
proof (induction n arbitrary: g)
  case 0
  show ?case by simp
next
  case (Suc n)
  from random_int32_value[of g] obtain f where
    f: "random_int32 g = Inr (PyFloat f, stl g)" "nonneg_double f" "valof f < 2 ^ 32 - 1"
    by blast
  from h[OF f(2,3)] obtain y where y: "h (PyFloat f) = Inr y" "Q y" by blast
  from Suc.IH[of "stl g"] obtain ys where
    ys: "comprehension h n (stl g) = Inr (ys, sdrop n (stl g))" "length ys = n"
        "\<forall>i<n. \<exists>v g'. random_int32 (sdrop i (stl g)) = Inr (v, g') \<and> h v = Inr (ys ! i)"
        "\<forall>y\<in>set ys. Q y"
    by blast
  have c: "comprehension h (Suc n) g = Inr (y # ys, sdrop (Suc n) g)"
    by (simp add: and_then_def f(1) y(1) ys(1))
  have "\<exists>v g'. random_int32 (sdrop i g) = Inr (v, g') \<and> h v = Inr ((y # ys) ! i)" if "i < Suc n" for i
  proof (cases i)
    case 0
    then show ?thesis using f(1) y(1) by simp
  next
    case (Suc j)
    then show ?thesis using ys(3) that by simp
  qed
  then show ?case using c ys(2,4) y(2) by auto
qed


lemma float_sampleE:
  assumes "float_sample v"
  obtains f where "v = PyFloat f" "nonneg_double f" "valof f < 2 ^ 32"
  using assms by (cases v) (auto simp: float_sample_def)

lemma py_lt_float_sample:
  assumes "float_sample v" "float_sample w"
  obtains f k where "v = PyFloat f" "w = PyFloat k" "py_lt v w \<longleftrightarrow> valof f < valof k"
proof -
  from assms(1) obtain f where f: "v = PyFloat f" "nonneg_double f" by (rule float_sampleE)
  from assms(2) obtain k where k: "w = PyFloat k" "nonneg_double k" by (rule float_sampleE)
  from f(2) obtain m1 e1 where m1: "f = Finite m1 e1" by (rule nonneg_doubleE)
  from k(2) obtain m2 e2 where m2: "k = Finite m2 e2" by (rule nonneg_doubleE)
  have "py_lt v w \<longleftrightarrow> valof f < valof k"
    unfolding f(1) k(1) m1 m2 py_lt.simps by (rule float_lt_valof)
  with f(1) k(1) show ?thesis by (rule that)
qed

lemma py_lt_trans_sample:
  assumes "float_sample u" "float_sample v" "float_sample w"
    and "\<not> py_lt v u" "\<not> py_lt w v"
  shows "\<not> py_lt w u"
proof -
  from assms(1,2) obtain a b where ab: "u = PyFloat a" "v = PyFloat b" "py_lt u v \<longleftrightarrow> valof a < valof b"
    by (rule py_lt_float_sample)
  from assms(2,1) obtain b' a' where ba: "v = PyFloat b'" "u = PyFloat a'" "py_lt v u \<longleftrightarrow> valof b' < valof a'"
    by (rule py_lt_float_sample)
  from assms(3,2) obtain c b'' where cb: "w = PyFloat c" "v = PyFloat b''" "py_lt w v \<longleftrightarrow> valof c < valof b''"
    by (rule py_lt_float_sample)
  from assms(3,1) obtain c' a'' where ca: "w = PyFloat c'" "u = PyFloat a''" "py_lt w u \<longleftrightarrow> valof c' < valof a''"
    by (rule py_lt_float_sample)
  from ab ba cb ca assms(4,5) show ?thesis by auto
qed

lemma py_lt_irrefl_sample:
  assumes "float_sample v"
  shows "\<not> py_lt v v"
proof -
  from assms assms obtain a b where "v = PyFloat a" "v = PyFloat b" "py_lt v v \<longleftrightarrow> valof a < valof b"
    by (rule py_lt_float_sample)
  then show ?thesis by auto
qed

lemma py_lt_asym_sample: "float_sample u \<Longrightarrow> float_sample v \<Longrightarrow> py_lt u v \<Longrightarrow> \<not> py_lt v u"
proof -
  assume u: "float_sample u" and v: "float_sample v" and lt: "py_lt u v"
  from u v obtain a b where ab: "u = PyFloat a" "v = PyFloat b" "py_lt u v \<longleftrightarrow> valof a < valof b"
    by (rule py_lt_float_sample)
  from v u obtain b' a' where ba: "v = PyFloat b'" "u = PyFloat a'" "py_lt v u \<longleftrightarrow> valof b' < valof a'"
    by (rule py_lt_float_sample)
  from ab ba lt show ?thesis by auto
qed

lemma fold_max_sample:
  assumes "float_sample v" "\<forall>y\<in>set vs. float_sample y"
  defines "r \<equiv> fold (\<lambda>item best. if py_lt best item then item else best) vs v"
  shows "r \<in> set (v # vs) \<and> \<not> py_lt r v \<and> (\<forall>y\<in>set vs. \<not> py_lt r y)"
  using assms(1,2) unfolding r_def
proof (induction vs arbitrary: v)
  case Nil
  then show ?case by (simp add: py_lt_irrefl_sample)
next
  case (Cons w ws)
  let ?step = "\<lambda>item best. if py_lt best item then item else best"
  define v' where "v' = (if py_lt v w then w else v)"
  have v': "float_sample v'" using Cons.prems by (simp add: v'_def)
  have ws: "\<forall>y\<in>set ws. float_sample y" using Cons.prems by simp
  have w: "float_sample w" using Cons.prems by simp
  define r where "r = fold ?step ws v'"
  from Cons.IH[OF v' ws] have IH: "r \<in> set (v' # ws)" "\<not> py_lt r v'" "\<forall>y\<in>set ws. \<not> py_lt r y"
    by (simp_all add: r_def)
  have r: "float_sample r" using IH(1) v' ws by auto
  have f: "fold ?step (w # ws) v = r" by (simp add: r_def v'_def)
  have v1: "\<not> py_lt v' v" "\<not> py_lt v' w"
    using Cons.prems(1) w by (auto simp: v'_def py_lt_irrefl_sample py_lt_asym_sample)
  have "\<not> py_lt r v" by (rule py_lt_trans_sample[OF Cons.prems(1) v' r v1(1) IH(2)])
  moreover have "\<not> py_lt r w" by (rule py_lt_trans_sample[OF w v' r v1(2) IH(2)])
  moreover have "r \<in> set (v # w # ws)" using IH(1) by (auto simp: v'_def split: if_splits)
  ultimately show ?case unfolding f using IH(3) by simp
qed

lemma fold_min_sample:
  assumes "float_sample v" "\<forall>y\<in>set vs. float_sample y"
  defines "r \<equiv> fold (\<lambda>item best. if py_lt item best then item else best) vs v"
  shows "r \<in> set (v # vs) \<and> \<not> py_lt v r \<and> (\<forall>y\<in>set vs. \<not> py_lt y r)"
  using assms(1,2) unfolding r_def
proof (induction vs arbitrary: v)
  case Nil
  then show ?case by (simp add: py_lt_irrefl_sample)
next
  case (Cons w ws)
  let ?step = "\<lambda>item best. if py_lt item best then item else best"
  define v' where "v' = (if py_lt w v then w else v)"
  have v': "float_sample v'" using Cons.prems by (simp add: v'_def)
  have ws: "\<forall>y\<in>set ws. float_sample y" using Cons.prems by simp
  have w: "float_sample w" using Cons.prems by simp
  define r where "r = fold ?step ws v'"
  from Cons.IH[OF v' ws] have IH: "r \<in> set (v' # ws)" "\<not> py_lt v' r" "\<forall>y\<in>set ws. \<not> py_lt y r"
    by (simp_all add: r_def)
  have r: "float_sample r" using IH(1) v' ws by auto
  have f: "fold ?step (w # ws) v = r" by (simp add: r_def v'_def)
  have v1: "\<not> py_lt v v'" "\<not> py_lt w v'"
    using Cons.prems(1) w by (auto simp: v'_def py_lt_irrefl_sample py_lt_asym_sample)
  have "\<not> py_lt v r" by (rule py_lt_trans_sample[OF r v' Cons.prems(1) IH(2) v1(1)])
  moreover have "\<not> py_lt w r" by (rule py_lt_trans_sample[OF r v' w IH(2) v1(2)])
  moreover have "r \<in> set (v # w # ws)" using IH(1) by (auto simp: v'_def split: if_splits)
  ultimately show ?case unfolding f using IH(3) by simp
qed

lemma py_max_sample:
  assumes "xs \<noteq> []" "\<forall>y\<in>set xs. float_sample y"
  shows "\<exists>mx. py_max xs = Inr mx \<and> mx \<in> set xs \<and> (\<forall>y\<in>set xs. \<not> py_lt mx y)"
proof (cases xs)
  case Nil
  with assms(1) show ?thesis by simp
next
  case (Cons v vs)
  with assms(2) have "float_sample v" "\<forall>y\<in>set vs. float_sample y" by simp_all
  from fold_max_sample[OF this] show ?thesis by (simp add: py_max_def Cons)
qed

lemma py_min_sample:
  assumes "xs \<noteq> []" "\<forall>y\<in>set xs. float_sample y"
  shows "\<exists>mn. py_min xs = Inr mn \<and> mn \<in> set xs \<and> (\<forall>y\<in>set xs. \<not> py_lt y mn)"
proof (cases xs)
  case Nil
  with assms(1) show ?thesis by simp
next
  case (Cons v vs)
  with assms(2) have "float_sample v" "\<forall>y\<in>set vs. float_sample y" by simp_all
  from fold_min_sample[OF this] show ?thesis by (simp add: py_min_def Cons)
qed


lemma hash_float_sample:
  assumes a: "nonneg_double a" "valof a < 2 ^ 32 - 1" and b: "nonneg_double b" "valof b < 2 ^ 32 - 1"
    and f: "nonneg_double f" "valof f < 2 ^ 32 - 1"
  shows "\<exists>y. create_hashing (PyFloat a) (PyFloat b) (PyInt (2 ^ 61 - 1)) (PyInt (2 ^ 32)) (PyFloat f) = Inr y
            \<and> float_sample y"
proof -
  have "valof a < 2 ^ 32" "valof b < 2 ^ 32" "valof f < 2 ^ 32" using a b f by simp_all
  from create_hashing_float[OF a(1) this(1) b(1) this(2) f(1) this(3)]
  show ?thesis by (auto simp: float_sample_def)
qed

lemma main_run:
  obtains a b xs mx mn where
    "random_int32 g = Inr (a, stl g)"
    "random_int32 (stl g) = Inr (b, stl (stl g))"
    "length xs = 2 ^ 18"
    "\<forall>i<2 ^ 18. \<exists>v g'. random_int32 (sdrop i (stl (stl g))) = Inr (v, g') \<and>
        create_hashing a b (PyInt (2 ^ 61 - 1)) (PyInt (2 ^ 32)) v = Inr (xs ! i)"
    "\<forall>y\<in>set xs. float_sample y"
    "py_max xs = Inr mx" "mx \<in> set xs" "\<forall>y\<in>set xs. \<not> py_lt mx y"
    "py_min xs = Inr mn" "mn \<in> set xs" "\<forall>y\<in>set xs. \<not> py_lt y mn"
    "main g = Inr \<lparr>printed = [[PyInt (2 ^ 32 - 1), mx, PyInt 0, mn]],
                   hist_x = xs, hist_bins = 100, savefig = ''universal_hash.png''\<rparr>"
proof -
  from random_int32_value[of g] obtain a where
    a: "random_int32 g = Inr (PyFloat a, stl g)" "nonneg_double a" "valof a < 2 ^ 32 - 1"
    by blast
  from random_int32_value[of "stl g"] obtain b where
    b: "random_int32 (stl g) = Inr (PyFloat b, stl (stl g))" "nonneg_double b" "valof b < 2 ^ 32 - 1"
    by blast
  define h where "h = create_hashing (PyFloat a) (PyFloat b) (PyInt (2 ^ 61 - 1)) (PyInt (2 ^ 32))"
  have hs: "\<exists>y. h (PyFloat f) = Inr y \<and> float_sample y"
    if "nonneg_double f" "valof f < 2 ^ 32 - 1" for f
    unfolding h_def using a(2,3) b(2,3) that by (rule hash_float_sample)
  from comprehension_spec[of h float_sample "2 ^ 18" "stl (stl g)", OF hs] obtain xs where
    xs: "comprehension h (2 ^ 18) (stl (stl g)) = Inr (xs, sdrop (2 ^ 18) (stl (stl g)))"
        "length xs = 2 ^ 18"
        "\<forall>i<2 ^ 18. \<exists>v g'. random_int32 (sdrop i (stl (stl g))) = Inr (v, g') \<and> h v = Inr (xs ! i)"
        "\<forall>y\<in>set xs. float_sample y"
    by blast
  have ne: "xs \<noteq> []" using xs(2) by auto
  from py_max_sample[OF ne xs(4)] obtain mx where
    mx: "py_max xs = Inr mx" "mx \<in> set xs" "\<forall>y\<in>set xs. \<not> py_lt mx y" by blast
  from py_min_sample[OF ne xs(4)] obtain mn where
    mn: "py_min xs = Inr mn" "mn \<in> set xs" "\<forall>y\<in>set xs. \<not> py_lt y mn" by blast
  have hh: "create_hashing (PyFloat a) (PyFloat b) (PyInt 2305843009213693951) (PyInt 4294967296) = h"
    by (simp add: h_def)
  have cc: "comprehension h 262144 (stl (stl g)) = Inr (xs, sdrop (2 ^ 18) (stl (stl g)))"
    using xs(1) by simp
  have m: "main g = Inr \<lparr>printed = [[PyInt (2 ^ 32 - 1), mx, PyInt 0, mn]],
                   hist_x = xs, hist_bins = 100, savefig = ''universal_hash.png''\<rparr>"
    by (simp add: main_def and_then_def a(1) b(1) Let_def hh cc mx(1) mn(1))
  show ?thesis
    by (rule that[OF a(1) b(1) xs(2) xs(3)[unfolded h_def] xs(4) mx mn m])
qed


lemma random_int32_shd:
  assumes "shd g = shd g'"
  obtains v where "random_int32 g = Inr (v, stl g)" "random_int32 g' = Inr (v, stl g')"
proof -
  define r where "r = py_mul (PyFloat (round_to_double (uint (shd g)) (- 53))) (PyInt (push_bit 32 1 - 1))"
  have g: "random_int32 g = and_then r (\<lambda>v. Inr (v, stl g))"
    by (simp add: random_int32_def random_random_def r_def)
  have g': "random_int32 g' = and_then r (\<lambda>v. Inr (v, stl g'))"
    by (simp add: random_int32_def random_random_def r_def assms)
  from random_int32_value[of g] obtain f where "random_int32 g = Inr (PyFloat f, stl g)" by blast
  with g have "r = Inr (PyFloat f)" by (cases r) (simp_all add: and_then_def)
  with g g' show ?thesis by (intro that[of "PyFloat f"]) (simp_all add: and_then_def)
qed

lemma comprehension_prefix:
  "stake n g = stake n g' \<Longrightarrow>
     map_sum id fst (comprehension h n g) = map_sum id fst (comprehension h n g')"
proof (induction n arbitrary: g g')
  case 0
  show ?case by simp
next
  case (Suc n)
  from Suc.prems have hd: "shd g = shd g'" and tl: "stake n (stl g) = stake n (stl g')" by simp_all
  from hd obtain v where v: "random_int32 g = Inr (v, stl g)" "random_int32 g' = Inr (v, stl g')"
    by (rule random_int32_shd)
  note IH = Suc.IH[OF tl]
  show ?case
  proof (cases "h v")
    case (Inl err)
    then show ?thesis by (simp add: and_then_def v)
  next
    case (Inr y)
    show ?thesis
      using IH
      by (cases "comprehension h n (stl g)"; cases "comprehension h n (stl g')")
         (auto simp: and_then_def v Inr)
  qed
qed

lemma main_prefix:
  assumes "stake (2 ^ 18 + 2) g = stake (2 ^ 18 + 2) g'"
  shows "main g = main g'"
proof -
  have "(2::nat) ^ 18 + 2 = Suc (Suc (2 ^ 18))" by simp
  with assms have s: "stake (Suc (Suc (2 ^ 18))) g = stake (Suc (Suc (2 ^ 18))) g'" by (simp only:)
  then have hd: "shd g = shd g'" and hd2: "shd (stl g) = shd (stl g')"
    and tl: "stake (2 ^ 18) (stl (stl g)) = stake (2 ^ 18) (stl (stl g'))"
    by (simp_all only: stake.simps list.inject)
  from hd obtain a where a: "random_int32 g = Inr (a, stl g)" "random_int32 g' = Inr (a, stl g')"
    by (rule random_int32_shd)
  from hd2 obtain b where
    b: "random_int32 (stl g) = Inr (b, stl (stl g))" "random_int32 (stl g') = Inr (b, stl (stl g'))"
    by (rule random_int32_shd)
  define h where "h = create_hashing a b (PyInt 2305843009213693951) (PyInt 4294967296)"
  have "map_sum id fst (comprehension h (2 ^ 18) (stl (stl g)))
      = map_sum id fst (comprehension h (2 ^ 18) (stl (stl g')))"
    using tl by (rule comprehension_prefix)
  then have c: "map_sum id fst (comprehension h 262144 (stl (stl g)))
      = map_sum id fst (comprehension h 262144 (stl (stl g')))" by simp
  show ?thesis
    using c
    by (cases "comprehension h 262144 (stl (stl g))"; cases "comprehension h 262144 (stl (stl g'))")
       (auto simp: main_def and_then_def a b Let_def h_def[symmetric])
qed

lemma comprehension_const:
  assumes "random_int32 g = Inr (v, g)" "h v = Inr y"
  shows "comprehension h n g = Inr (replicate n y, g)"
  by (induction n) (simp_all add: and_then_def assms)

lemma fold_keep:
  "\<not> lt y y \<Longrightarrow> fold (\<lambda>item best. if lt best item then item else best) (replicate n y) y = y"
  "\<not> lt y y \<Longrightarrow> fold (\<lambda>item best. if lt item best then item else best) (replicate n y) y = y"
  by (induction n) simp_all

lemma float_rem_total: "\<not> float_is_zero y \<Longrightarrow> \<exists>r. float_rem x y = Inr r"
  by (simp add: float_rem_def Let_def)

lemma main_const_tail:
  assumes a: "random_int32 g = Inr (a, g1)" and b: "random_int32 g1 = Inr (b, g2)"
    and v: "random_int32 g2 = Inr (v, g2)"
    and y: "create_hashing a b (PyInt (2 ^ 61 - 1)) (PyInt (2 ^ 32)) v = Inr y"
    and irr: "\<not> py_lt y y"
  shows "main g = Inr \<lparr>printed = [[PyInt (2 ^ 32 - 1), y, PyInt 0, y]],
                   hist_x = replicate (2 ^ 18) y, hist_bins = 100, savefig = ''universal_hash.png''\<rparr>"
proof -
  define h where "h = create_hashing a b (PyInt 2305843009213693951) (PyInt 4294967296)"
  have hy: "h v = Inr y" using y by (simp add: h_def)
  have c: "comprehension h 262144 g2 = Inr (replicate 262144 y, g2)"
    using v hy by (rule comprehension_const)
  have "(262144::nat) = Suc 262143" by simp
  then have r: "replicate 262144 y = y # replicate 262143 y" by (simp only: replicate_Suc)
  have mx: "py_max (replicate 262144 y) = Inr y"
    unfolding r py_max_def using fold_keep(1)[of py_lt y 262143, OF irr] by simp
  have mn: "py_min (replicate 262144 y) = Inr y"
    unfolding r py_min_def using fold_keep(2)[of py_lt y 262143, OF irr] by simp
  show ?thesis
    by (simp add: main_def and_then_def a b Let_def h_def[symmetric] c mx mn)
qed

lemma stake_exact: "length w = n \<Longrightarrow> stake n (w @- s) = w"
  by (simp add: stake_shift)

section \<open>Properties\<close>

lemma create_hashing_int:
  "create_hashing (PyInt a) (PyInt b) (PyInt p) (PyInt m) (PyInt x) =
     (if p = 0 \<or> m = 0 then Inl ZeroDivisionError
      else Inr (PyInt (((a * x + b) mod p) mod m)))"
  by (simp add: create_hashing_def and_then_def)

text \<open>
  C5: with \<open>a = 0\<close>, \<open>b = 5\<close>, \<open>p = 97\<close>, \<open>m = 10\<close> the hash function returns \<open>5\<close> for
  every integer input \<open>x\<close>.
\<close>

theorem create_hashing_degenerate:
  "create_hashing (PyInt 0) (PyInt 5) (PyInt 97) (PyInt 10) (PyInt x) = Inr (PyInt 5)"
  by (simp add: create_hashing_int)

text \<open>
  C6: with \<open>a = 1\<close>, \<open>b = 0\<close>, \<open>p = 97\<close>, \<open>m = 10\<close> the hash of \<open>50\<close> is
  \<open>(50 mod 97) mod 10 = 0\<close>.
\<close>

theorem create_hashing_fifty:
  "create_hashing (PyInt 1) (PyInt 0) (PyInt 97) (PyInt 10) (PyInt 50) = Inr (PyInt 0)"
  by (simp add: create_hashing_int)

text \<open>
  C1, as amended: for all integers \<open>a\<close>, \<open>b\<close>, \<open>x\<close> and all integers \<open>p\<close>, \<open>m\<close> other
  than zero, the function returned by \<^verbatim>\<open>create_hashing(a, b, p, m)\<close> returns
  \<open>((a*x + b) mod p) mod m\<close> at \<open>x\<close>, with Python's floored modulo.
\<close>

theorem create_hashing_formula:
  "p \<noteq> 0 \<Longrightarrow> m \<noteq> 0 \<Longrightarrow>
     create_hashing (PyInt a) (PyInt b) (PyInt p) (PyInt m) (PyInt x)
       = Inr (PyInt (((a * x + b) mod p) mod m))"
  by (simp add: create_hashing_int)

text \<open>The amended statement at \<open>a = 3\<close>, \<open>b = 4\<close>, \<open>p = 97\<close>, \<open>m = 10\<close>, \<open>x = 50\<close>.\<close>

theorem create_hashing_formula_witness:
  "(97::int) \<noteq> 0 \<and> (10::int) \<noteq> 0 \<and>
     create_hashing (PyInt 3) (PyInt 4) (PyInt 97) (PyInt 10) (PyInt 50) = Inr (PyInt 7)"
  using create_hashing_formula[of 97 10 3 4 50] by simp

text \<open>
  C1 as stated, for all parameters, fails twice.  With \<open>p = 0\<close> the function raises
  \<^verbatim>\<open>ZeroDivisionError\<close> and computes nothing.  With float coefficients, as the driver
  passes them, the arithmetic is that of binary64 and the modulus \<open>2^61 - 1\<close> is coerced
  to the float \<open>2^61\<close>: at \<open>a = 2^31\<close>, \<open>b = 0\<close>, \<open>x = 2^30\<close> the function returns \<open>0.0\<close>,
  where \<open>((a*x + b) mod p) mod m\<close> is \<open>1\<close>.
\<close>

theorem create_hashing_formula_counterexample:
  "create_hashing (PyInt 1) (PyInt 1) (PyInt 0) (PyInt 1) (PyInt 1) = Inl ZeroDivisionError
   \<and> create_hashing (PyInt 1) (PyInt 1) (PyInt 0) (PyInt 1) (PyInt 1)
       \<noteq> Inr (PyInt (((1 * 1 + 1) mod 0) mod 1))
   \<and> create_hashing (PyFloat (Finite 4503599627370496 (- 21))) (PyFloat (Finite 0 0))
         (PyInt (2 ^ 61 - 1)) (PyInt (2 ^ 32)) (PyFloat (Finite 4503599627370496 (- 22)))
       = Inr (PyFloat (Finite 0 0))
   \<and> valof (Finite 4503599627370496 (- 21)) = 2 ^ 31
   \<and> valof (Finite 4503599627370496 (- 22)) = 2 ^ 30
   \<and> ((2 ^ 31 * 2 ^ 30 + 0) mod (2 ^ 61 - 1)) mod 2 ^ 32 = (1::int)"
proof (intro conjI)
  show "create_hashing (PyInt 1) (PyInt 1) (PyInt 0) (PyInt 1) (PyInt 1) = Inl ZeroDivisionError"
    by (simp add: create_hashing_int)
  show "create_hashing (PyInt 1) (PyInt 1) (PyInt 0) (PyInt 1) (PyInt 1)
       \<noteq> Inr (PyInt (((1 * 1 + 1) mod 0) mod 1))"
    by (simp add: create_hashing_int)
  show "create_hashing (PyFloat (Finite 4503599627370496 (- 21))) (PyFloat (Finite 0 0))
         (PyInt (2 ^ 61 - 1)) (PyInt (2 ^ 32)) (PyFloat (Finite 4503599627370496 (- 22)))
       = Inr (PyFloat (Finite 0 0))"
    by code_simp
  show "valof (Finite 4503599627370496 (- 21)) = 2 ^ 31" by simp
  show "valof (Finite 4503599627370496 (- 22)) = 2 ^ 30" by simp
  show "((2 ^ 31 * 2 ^ 30 + 0) mod (2 ^ 61 - 1)) mod 2 ^ 32 = (1::int)" by simp
qed

text \<open>
  C2: with \<open>m = 2^32\<close> the hash of a non-negative input lies in \<open>[0, m)\<close>.  For integers
  this holds for every modulus \<open>p\<close> with \<open>a, b\<close> in \<open>[0, p)\<close>; for the floats of the
  driver (coefficients and inputs in \<open>[0, 2^32)\<close>, \<open>p = 2^61 - 1\<close>) the result is a finite
  float in the same interval.
\<close>

theorem hash_in_range:
  "(0 \<le> x \<and> 0 \<le> a \<and> a < p \<and> 0 \<le> b \<and> b < p \<longrightarrow>
      (\<exists>y. create_hashing (PyInt a) (PyInt b) (PyInt p) (PyInt (2 ^ 32)) (PyInt x) = Inr (PyInt y)
           \<and> 0 \<le> y \<and> y < 2 ^ 32))
   \<and> (nonneg_double fa \<and> valof fa < 2 ^ 32 \<and> nonneg_double fb \<and> valof fb < 2 ^ 32
        \<and> nonneg_double fx \<and> valof fx < 2 ^ 32 \<longrightarrow>
      (\<exists>y. create_hashing (PyFloat fa) (PyFloat fb) (PyInt (2 ^ 61 - 1)) (PyInt (2 ^ 32)) (PyFloat fx)
             = Inr (PyFloat y)
           \<and> nonneg_double y \<and> 0 \<le> valof y \<and> valof y < 2 ^ 32))"
proof (intro conjI impI)
  assume "0 \<le> x \<and> 0 \<le> a \<and> a < p \<and> 0 \<le> b \<and> b < p"
  then have "p \<noteq> 0" by auto
  then show "\<exists>y. create_hashing (PyInt a) (PyInt b) (PyInt p) (PyInt (2 ^ 32)) (PyInt x) = Inr (PyInt y)
           \<and> 0 \<le> y \<and> y < 2 ^ 32"
    by (simp add: create_hashing_int)
next
  assume h: "nonneg_double fa \<and> valof fa < 2 ^ 32 \<and> nonneg_double fb \<and> valof fb < 2 ^ 32
        \<and> nonneg_double fx \<and> valof fx < 2 ^ 32"
  then have "\<exists>y. create_hashing (PyFloat fa) (PyFloat fb) (PyInt (push_bit 61 1 - 1))
              (PyInt (push_bit 32 1)) (PyFloat fx) = Inr (PyFloat y)
            \<and> nonneg_double y \<and> valof y < 2 ^ 32"
    by (intro create_hashing_float) simp_all
  then show "\<exists>y. create_hashing (PyFloat fa) (PyFloat fb) (PyInt (2 ^ 61 - 1)) (PyInt (2 ^ 32)) (PyFloat fx)
             = Inr (PyFloat y)
           \<and> nonneg_double y \<and> 0 \<le> valof y \<and> valof y < 2 ^ 32"
    by (auto simp: nonneg_double_valof)
qed

text \<open>Both parts of C2 at concrete numbers: the integers \<open>3, 4, 97, 50\<close> and the float \<open>1.0\<close>.\<close>

theorem hash_in_range_witness:
  "((0::int) \<le> 50 \<and> (0::int) \<le> 3 \<and> (3::int) < 97 \<and> (0::int) \<le> 4 \<and> (4::int) < 97)
   \<and> (\<exists>y. create_hashing (PyInt 3) (PyInt 4) (PyInt 97) (PyInt (2 ^ 32)) (PyInt 50) = Inr (PyInt y)
           \<and> 0 \<le> y \<and> y < 2 ^ 32)
   \<and> (nonneg_double (Finite 4503599627370496 (- 52)) \<and> valof (Finite 4503599627370496 (- 52)) < 2 ^ 32)
   \<and> (\<exists>y. create_hashing (PyFloat (Finite 4503599627370496 (- 52))) (PyFloat (Finite 4503599627370496 (- 52)))
              (PyInt (2 ^ 61 - 1)) (PyInt (2 ^ 32)) (PyFloat (Finite 4503599627370496 (- 52)))
             = Inr (PyFloat y)
           \<and> nonneg_double y \<and> 0 \<le> valof y \<and> valof y < 2 ^ 32)"
  using hash_in_range[of 50 3 97 4 "Finite 4503599627370496 (- 52)" "Finite 4503599627370496 (- 52)"
      "Finite 4503599627370496 (- 52)"]
  by (simp add: nonneg_double_def)

text \<open>
  C7: with the moduli of the program, \<open>p = 2^61 - 1\<close> and \<open>m = 2^32\<close>, evaluating the hash
  function never raises: on integers it returns an integer, on floats a float.  The function
  takes no generator and returns nothing but its value, so it has no effect to speak of.
  (An operation that mixes a float with an integer of \<open>2^1024\<close> or more is not part of
  either reading: the coercion of such an integer raises.)
\<close>

theorem create_hashing_total:
  "(\<exists>y. create_hashing (PyInt a) (PyInt b) (PyInt (2 ^ 61 - 1)) (PyInt (2 ^ 32)) (PyInt x) = Inr (PyInt y))
   \<and> (\<exists>y. create_hashing (PyFloat fa) (PyFloat fb) (PyInt (2 ^ 61 - 1)) (PyInt (2 ^ 32)) (PyFloat fx)
          = Inr (PyFloat y))"
proof
  show "\<exists>y. create_hashing (PyInt a) (PyInt b) (PyInt (2 ^ 61 - 1)) (PyInt (2 ^ 32)) (PyInt x) = Inr (PyInt y)"
    by (simp add: create_hashing_int)
  obtain r where r: "float_rem (float_add (float_mul fa fx) fb) (Finite 4503599627370496 9) = Inr r"
    using float_rem_total[of "Finite 4503599627370496 9"] by auto
  obtain y where y: "float_rem r (Finite 4503599627370496 (- 20)) = Inr y"
    using float_rem_total[of "Finite 4503599627370496 (- 20)"] by auto
  show "\<exists>y. create_hashing (PyFloat fa) (PyFloat fb) (PyInt (2 ^ 61 - 1)) (PyInt (2 ^ 32)) (PyFloat fx)
          = Inr (PyFloat y)"
    by (simp add: create_hashing_def and_then_def as_double_p as_double_m r y)
qed

text \<open>
  C9: every call of \<^verbatim>\<open>random_int32\<close> succeeds, consumes one element of the generator and
  returns a finite float \<open>y\<close> with \<open>0 \<le> y < 2^32 - 1\<close>, hence below \<open>p = 2^61 - 1\<close>; the
  value \<open>2^32 - 1\<close> is never returned.
\<close>

theorem random_int32_range:
  "\<exists>y. random_int32 g = Inr (PyFloat y, stl g) \<and> nonneg_double y
       \<and> 0 \<le> valof y \<and> valof y < 2 ^ 32 - 1 \<and> valof y < 2 ^ 61 - 1"
proof -
  from random_int32_value[of g] obtain y where
    y: "random_int32 g = Inr (PyFloat y, stl g)" "nonneg_double y" "valof y < 2 ^ 32 - 1"
    by blast
  from y(2) have "0 \<le> valof y" by (rule nonneg_double_valof)
  moreover from y(3) have "valof y < 2 ^ 61 - 1" by simp
  ultimately show ?thesis using y by blast
qed

lemmas draw_eval = random_int32_def random_random_def and_then_def as_double_scale
  round_to_double_def round_half_even_def Let_def bit_length.simps

text \<open>
  C3: every run succeeds and collects a sequence of exactly \<open>2^18\<close> samples.  With \<open>a\<close>
  and \<open>b\<close> the first two values drawn, the \<open>i\<close>-th sample is the hash function of
  \<open>a\<close>, \<open>b\<close>, \<open>p = 2^61 - 1\<close>, \<open>m = 2^32\<close> applied to the \<open>i\<close>-th value drawn after them.
\<close>

theorem main_samples:
  "\<exists>a b g1 g2 out.
      random_int32 g = Inr (a, g1) \<and> random_int32 g1 = Inr (b, g2) \<and>
      main g = Inr out \<and> length (hist_x out) = 2 ^ 18 \<and>
      (\<forall>i<2 ^ 18. \<exists>v g'. random_int32 (sdrop i g2) = Inr (v, g') \<and>
          create_hashing a b (PyInt (2 ^ 61 - 1)) (PyInt (2 ^ 32)) v = Inr (hist_x out ! i))"
proof -
  obtain a b xs mx mn where
    r: "random_int32 g = Inr (a, stl g)" "random_int32 (stl g) = Inr (b, stl (stl g))"
      "length xs = 2 ^ 18"
      "\<forall>i<2 ^ 18. \<exists>v g'. random_int32 (sdrop i (stl (stl g))) = Inr (v, g') \<and>
        create_hashing a b (PyInt (2 ^ 61 - 1)) (PyInt (2 ^ 32)) v = Inr (xs ! i)"
      "main g = Inr \<lparr>printed = [[PyInt (2 ^ 32 - 1), mx, PyInt 0, mn]],
                   hist_x = xs, hist_bins = 100, savefig = ''universal_hash.png''\<rparr>"
    by (rule main_run[of g]) blast
  show ?thesis
    apply (rule exI[where x = a], rule exI[where x = b])
    apply (rule exI[where x = "stl g"], rule exI[where x = "stl (stl g)"])
    apply (rule exI[where x = "\<lparr>printed = [[PyInt (2 ^ 32 - 1), mx, PyInt 0, mn]],
                   hist_x = xs, hist_bins = 100, savefig = ''universal_hash.png''\<rparr>"])
    using r by simp
qed

text \<open>
  A run to look at: the generator yields \<open>12345678901234\<close>, \<open>98765432109876\<close> and then
  \<open>5555555555555555\<close> for ever.
\<close>

lemma draw_a: "random_int32 (12345678901234 ## s) = Inr (PyFloat (Finite 6320987595960088 (- 30)), s)"
  by (simp add: draw_eval)

lemma draw_b: "random_int32 (98765432109876 ## s) = Inr (PyFloat (Finite 6320987653560344 (- 27)), s)"
  by (simp add: draw_eval)

lemma draw_x: "random_int32 (5555555555555555 ## s) = Inr (PyFloat (Finite 5555555554262051 (- 21)), s)"
  by (simp add: draw_eval)

lemma draw_x_const:
  "random_int32 (sconst 5555555555555555)
     = Inr (PyFloat (Finite 5555555554262051 (- 21)), sconst 5555555555555555)"
  using draw_x[of "sconst 5555555555555555"] by (subst siterate.ctr) simp

lemma hash_axb:
  "create_hashing (PyFloat (Finite 6320987595960088 (- 30))) (PyFloat (Finite 6320987653560344 (- 27)))
     (PyInt (2 ^ 61 - 1)) (PyInt (2 ^ 32)) (PyFloat (Finite 5555555554262051 (- 21)))
   = Inr (PyFloat (Finite 8313585625202688 (- 24)))"
  by code_simp

text \<open>C3 on this run: the first sample is \<open>495528318.0\<close>.\<close>

theorem main_samples_witness:
  "\<exists>out. main (12345678901234 ## 98765432109876 ## sconst 5555555555555555) = Inr out \<and>
      length (hist_x out) = 2 ^ 18 \<and> hist_x out ! 0 = PyFloat (Finite 8313585625202688 (- 24))"
proof -
  from main_samples[of "12345678901234 ## 98765432109876 ## sconst 5555555555555555"]
  obtain a b g1 g2 out where
    a: "random_int32 (12345678901234 ## 98765432109876 ## sconst 5555555555555555) = Inr (a, g1)"
    and b: "random_int32 g1 = Inr (b, g2)"
    and m: "main (12345678901234 ## 98765432109876 ## sconst 5555555555555555) = Inr out"
      "length (hist_x out) = 2 ^ 18"
    and x: "\<forall>i<2 ^ 18. \<exists>v g'. random_int32 (sdrop i g2) = Inr (v, g') \<and>
          create_hashing a b (PyInt (2 ^ 61 - 1)) (PyInt (2 ^ 32)) v = Inr (hist_x out ! i)"
    by blast
  from a have a': "a = PyFloat (Finite 6320987595960088 (- 30))"
    "g1 = 98765432109876 ## sconst 5555555555555555"
    by (simp_all add: draw_a)
  from b have b': "b = PyFloat (Finite 6320987653560344 (- 27))" "g2 = sconst 5555555555555555"
    by (simp_all add: a' draw_b)
  have "(0::nat) < 2 ^ 18" by simp
  with x obtain v g' where
    v: "random_int32 (sdrop 0 g2) = Inr (v, g')"
      "create_hashing a b (PyInt (2 ^ 61 - 1)) (PyInt (2 ^ 32)) v = Inr (hist_x out ! 0)"
    by blast
  from v(1) have v': "v = PyFloat (Finite 5555555554262051 (- 21))"
    by (simp add: b' draw_x_const)
  from v(2) have "hist_x out ! 0 = PyFloat (Finite 8313585625202688 (- 24))"
    unfolding a' b' v' hash_axb by simp
  with m show ?thesis by blast
qed


text \<open>
  C4: a run prints one line of four items, in this order: \<open>m - 1 = 2^32 - 1\<close>, the maximum
  of the samples, \<open>0\<close>, the minimum of the samples.  The maximum is a sample that no sample
  exceeds, the minimum a sample that exceeds no sample.
\<close>

theorem main_prints:
  "\<exists>out mx mn.
      main g = Inr out \<and>
      printed out = [[PyInt (2 ^ 32 - 1), mx, PyInt 0, mn]] \<and>
      py_max (hist_x out) = Inr mx \<and> mx \<in> set (hist_x out) \<and>
      (\<forall>y\<in>set (hist_x out). \<not> py_lt mx y) \<and>
      py_min (hist_x out) = Inr mn \<and> mn \<in> set (hist_x out) \<and>
      (\<forall>y\<in>set (hist_x out). \<not> py_lt y mn)"
proof -
  obtain a b xs mx mn where
    r: "py_max xs = Inr mx" "mx \<in> set xs" "\<forall>y\<in>set xs. \<not> py_lt mx y"
      "py_min xs = Inr mn" "mn \<in> set xs" "\<forall>y\<in>set xs. \<not> py_lt y mn"
      "main g = Inr \<lparr>printed = [[PyInt (2 ^ 32 - 1), mx, PyInt 0, mn]],
                   hist_x = xs, hist_bins = 100, savefig = ''universal_hash.png''\<rparr>"
    by (rule main_run[of g]) blast
  show ?thesis
    apply (rule exI[where x = "\<lparr>printed = [[PyInt (2 ^ 32 - 1), mx, PyInt 0, mn]],
                   hist_x = xs, hist_bins = 100, savefig = ''universal_hash.png''\<rparr>"])
    apply (rule exI[where x = mx], rule exI[where x = mn])
    using r by simp
qed

lemma main_axb:
  "main (12345678901234 ## 98765432109876 ## sconst 5555555555555555)
     = Inr \<lparr>printed = [[PyInt (2 ^ 32 - 1), PyFloat (Finite 8313585625202688 (- 24)), PyInt 0,
                           PyFloat (Finite 8313585625202688 (- 24))]],
             hist_x = replicate (2 ^ 18) (PyFloat (Finite 8313585625202688 (- 24))),
             hist_bins = 100, savefig = ''universal_hash.png''\<rparr>"
  by (rule main_const_tail[OF draw_a draw_b draw_x_const hash_axb]) simp

text \<open>C4 on the same run: all samples are equal, and so are the maximum and the minimum.\<close>

theorem main_prints_witness:
  "\<exists>out. main (12345678901234 ## 98765432109876 ## sconst 5555555555555555) = Inr out \<and>
      printed out = [[PyInt 4294967295, PyFloat (Finite 8313585625202688 (- 24)), PyInt 0,
                      PyFloat (Finite 8313585625202688 (- 24))]]"
proof -
  from main_prints[of "12345678901234 ## 98765432109876 ## sconst 5555555555555555"]
  obtain out mx mn where
    m: "main (12345678901234 ## 98765432109876 ## sconst 5555555555555555) = Inr out"
    and p: "printed out = [[PyInt (2 ^ 32 - 1), mx, PyInt 0, mn]]"
    and mx: "mx \<in> set (hist_x out)" and mn: "mn \<in> set (hist_x out)"
    by blast
  from m have h: "hist_x out = replicate (2 ^ 18) (PyFloat (Finite 8313585625202688 (- 24)))"
    unfolding main_axb by auto
  from mx mn have "mx = PyFloat (Finite 8313585625202688 (- 24))"
    "mn = PyFloat (Finite 8313585625202688 (- 24))"
    unfolding h by simp_all
  with m p show ?thesis by simp
qed

text \<open>
  C8: the run is a function of the random stream, and of no more of it than the \<open>2^18 + 2\<close>
  values it draws: two generators that agree on these produce the same samples, the same
  printed line and the same plot.
\<close>

theorem main_deterministic:
  "stake (2 ^ 18 + 2) g = stake (2 ^ 18 + 2) g' \<Longrightarrow> main g = main g'"
  by (rule main_prefix)

text \<open>C8 on two generators that differ from position \<open>2^18 + 2\<close> on.\<close>

theorem main_deterministic_witness:
  "stake (2 ^ 18 + 2) (replicate (2 ^ 18 + 2) 0 @- sconst 0)
     = stake (2 ^ 18 + 2) (replicate (2 ^ 18 + 2) (0::53 word) @- sconst 1)
   \<and> main (replicate (2 ^ 18 + 2) 0 @- sconst 0) = main (replicate (2 ^ 18 + 2) 0 @- sconst 1)"
proof -
  have s: "stake (2 ^ 18 + 2) (replicate (2 ^ 18 + 2) 0 @- sconst 0)
     = stake (2 ^ 18 + 2) (replicate (2 ^ 18 + 2) (0::53 word) @- sconst 1)"
    by (simp only: stake_exact length_replicate)
  from s main_deterministic[OF s] show ?thesis by (rule conjI)
qed

text \<open>
  C10: the samples are floats and need not be integers, and a sample can lie strictly between
  \<open>m - 1 = 2^32 - 1\<close> and \<open>m = 2^32\<close>.  The generator that yields \<open>2^21\<close>, then \<open>3 * 2^20\<close>,
  then \<open>2^53 - 1\<close> for ever gives \<open>a = 1 - 2^-32\<close>, \<open>b = 1.5 * (1 - 2^-32)\<close> and inputs
  \<open>x = 2^32 - 1 - 2^-21\<close>, all in \<open>[0, 2^32 - 1)\<close>; the hash of \<open>x\<close> is
  \<open>9007199253692415 / 2^21 = 4294967295.4999995\<close>, and the run prints it as the observed
  maximum next to the theoretical maximum \<open>4294967295\<close>.
\<close>

lemma draw_a10: "random_int32 (2097152 ## s) = Inr (PyFloat (Finite 9007199252643840 (- 53)), s)"
  by (simp add: draw_eval)

lemma draw_b10: "random_int32 (3145728 ## s) = Inr (PyFloat (Finite 6755399439482880 (- 52)), s)"
  by (simp add: draw_eval)

lemma draw_x10: "random_int32 (9007199254740991 ## s) = Inr (PyFloat (Finite 9007199252643839 (- 21)), s)"
  by (simp add: draw_eval)

lemma draw_x10_const:
  "random_int32 (sconst 9007199254740991)
     = Inr (PyFloat (Finite 9007199252643839 (- 21)), sconst 9007199254740991)"
  using draw_x10[of "sconst 9007199254740991"] by (subst siterate.ctr) simp

lemma hash_10:
  "create_hashing (PyFloat (Finite 9007199252643840 (- 53))) (PyFloat (Finite 6755399439482880 (- 52)))
     (PyInt (2 ^ 61 - 1)) (PyInt (2 ^ 32)) (PyFloat (Finite 9007199252643839 (- 21)))
   = Inr (PyFloat (Finite 9007199253692415 (- 21)))"
  by code_simp

theorem observed_max_exceeds:
  "random_int32 (2097152 ## 3145728 ## sconst 9007199254740991)
     = Inr (PyFloat (Finite 9007199252643840 (- 53)), 3145728 ## sconst 9007199254740991)
   \<and> random_int32 (3145728 ## sconst 9007199254740991)
     = Inr (PyFloat (Finite 6755399439482880 (- 52)), sconst 9007199254740991)
   \<and> random_int32 (sconst 9007199254740991)
     = Inr (PyFloat (Finite 9007199252643839 (- 21)), sconst 9007199254740991)
   \<and> create_hashing (PyFloat (Finite 9007199252643840 (- 53))) (PyFloat (Finite 6755399439482880 (- 52)))
        (PyInt (2 ^ 61 - 1)) (PyInt (2 ^ 32)) (PyFloat (Finite 9007199252643839 (- 21)))
     = Inr (PyFloat (Finite 9007199253692415 (- 21)))
   \<and> 2 ^ 32 - 1 < valof (Finite 9007199253692415 (- 21))
   \<and> valof (Finite 9007199253692415 (- 21)) < 2 ^ 32
   \<and> py_lt (PyInt (2 ^ 32 - 1)) (PyFloat (Finite 9007199253692415 (- 21)))
   \<and> main (2097152 ## 3145728 ## sconst 9007199254740991)
     = Inr \<lparr>printed = [[PyInt (2 ^ 32 - 1), PyFloat (Finite 9007199253692415 (- 21)), PyInt 0,
                           PyFloat (Finite 9007199253692415 (- 21))]],
             hist_x = replicate (2 ^ 18) (PyFloat (Finite 9007199253692415 (- 21))),
             hist_bins = 100, savefig = ''universal_hash.png''\<rparr>"
proof (intro conjI)
  show "main (2097152 ## 3145728 ## sconst 9007199254740991)
     = Inr \<lparr>printed = [[PyInt (2 ^ 32 - 1), PyFloat (Finite 9007199253692415 (- 21)), PyInt 0,
                           PyFloat (Finite 9007199253692415 (- 21))]],
             hist_x = replicate (2 ^ 18) (PyFloat (Finite 9007199253692415 (- 21))),
             hist_bins = 100, savefig = ''universal_hash.png''\<rparr>"
    by (rule main_const_tail[OF draw_a10 draw_b10 draw_x10_const hash_10]) simp
  show "create_hashing (PyFloat (Finite 9007199252643840 (- 53))) (PyFloat (Finite 6755399439482880 (- 52)))
        (PyInt (2 ^ 61 - 1)) (PyInt (2 ^ 32)) (PyFloat (Finite 9007199252643839 (- 21)))
     = Inr (PyFloat (Finite 9007199253692415 (- 21)))"
    by (rule hash_10)
qed (simp_all add: draw_a10 draw_b10 draw_x10_const)

end
